theory Spec2Isabelle
  imports Main "HOL-Library.Sublist"
begin

section \<open>The creators search index\<close>

text \<open>
  A shallow embedding of the search-index processor for creators
  (\<^verbatim>\<open>onIndexSetup\<close> and \<^verbatim>\<open>onIndexUpdate\<close>). The source store and the index
  engine are external; the model keeps what the processor does with them:
  \<^item> the store is a value that is only read (\<^verbatim>\<open>findMany\<close>), a table being the
    list of its rows in the order the store scans them;
  \<^item> every call on the store or on the index engine is recorded, in program order,
    as an event; a run returns its result, the events it issued and the next
    task uid of the engine;
  \<^item> a JavaScript exception is the \<open>Inl\<close> branch of the result.
  Calls of \<^verbatim>\<open>console.log\<close> are left out. The awaited calls on the store and on the
  engine are taken to resolve: a run in which one of them rejects is not modelled.
\<close>

subsection \<open>Rows of the source store\<close>

datatype MetricTimeframe = Day | Week | Month | Year | AllTime

record UserMetric =
  timeframe :: MetricTimeframe
  followerCount :: int
  uploadCount :: int
  followingCount :: int
  reviewCount :: int
  answerAcceptCount :: int
  hiddenCount :: int

record UserRank =
  ratingAllTimeRank :: int
  ratingCountAllTimeRank :: int
  followerCountAllTimeRank :: int
  favoriteCountAllTimeRank :: int
  answerAcceptCountAllTimeRank :: int
  answerCountAllTimeRank :: int
  downloadCountAllTimeRank :: int

text \<open>
  A user row with its two relations. Time stamps are integers. The columns that
  \<^verbatim>\<open>userWithCosmeticsSelect\<close> picks are not part of the sources: they are the
  parameter \<open>'p\<close>, next to the primary key. The type of \<^verbatim>\<open>metrics\<close> is an array
  in TypeScript; types are erased at run time, where \<^verbatim>\<open>userRecord.metrics[0]\<close>
  raises a TypeError on an undefined relation. \<open>None\<close> is that value; the store
  client returns a list for a relation that is selected, so no row that a run reads
  has it.
\<close>

record 'p User =
  user_id :: int
  createdAt :: int
  deletedAt :: "int option"
  columns :: 'p
  rank :: "UserRank option"
  metrics :: "UserMetric list option"

record QueueItem =
  queue_id :: int
  queue_type :: string

record 'p PrismaClient =
  user :: "'p User list"
  searchIndexUpdateQueue :: "QueueItem list"

text \<open>A JavaScript object with numeric fields: its keys with their values; \<open>[]\<close> is \<^verbatim>\<open>{}\<close>.\<close>

type_synonym js_object = "(string \<times> int) list"

text \<open>What \<^verbatim>\<open>db.user.findMany\<close> returns for a row under the \<^verbatim>\<open>select\<close> of the source.\<close>

record 'p userRecord =
  rec_id :: int
  rec_columns :: 'p
  rec_rank :: "UserRank option"
  rec_metrics :: "js_object list option"

text \<open>The document sent to the index engine.\<close>

record 'p indexReadyRecord =
  doc_id :: int
  doc_columns :: 'p
  doc_rank :: "UserRank option"
  doc_metrics :: js_object

datatype error = TypeError

subsection \<open>The index engine\<close>

text \<open>
  \<^verbatim>\<open>getOrCreateIndex\<close> is not part of the sources; the processor returns early
  when it yields no index. The client carries the index names for which it yields
  none.
\<close>

record MeiliSearch =
  noIndex :: "string list"

datatype 'p event =
    GetOrCreateIndex string
  | UpdateSearchableAttributes string "string list" nat
  | UpdateSortableAttributes string "string list" nat
  | UpdateDocuments string "'p indexReadyRecord list" nat
  | WaitForTasks "nat list"
  | QueueFindMany string
  | UserFindMany nat nat "'p userRecord list"
  | QueueDeleteMany string "int list"

record 'p SearchIndexRunContext =
  db :: "'p PrismaClient"
  lastUpdatedAt :: "int option"
  indexName :: string

definition READ_BATCH_SIZE :: nat where
  "READ_BATCH_SIZE = 1000"

definition INDEX_ID :: string where
  "INDEX_ID = ''creators''"

definition SWAP_INDEX_ID :: string where
  "SWAP_INDEX_ID = INDEX_ID @ ''_NEW''"

subsection \<open>onIndexSetup\<close>

definition sortableAttributes :: "string list" where
  "sortableAttributes =
     [''creation_date'',
      ''rank.ratingAllTimeRank'',
      ''rank.ratingCountAllTimeRank'',
      ''rank.followerCountAllTimeRank'',
      ''rank.favoriteCountAllTimeRank'',
      ''rank.answerAcceptCountAllTimeRank'',
      ''rank.answerCountAllTimeRank'',
      ''rank.downloadCountAllTimeRank'',
      ''metrics.followerCount'',
      ''metrics.uploadCount'',
      ''metrics.followingCount'',
      ''metrics.reviewCount'',
      ''metrics.answerAcceptCount'',
      ''metrics.hiddenCount'']"

text \<open>The events of the call and the next task uid; \<open>uid\<close> is the engine's next task uid.\<close>

definition onIndexSetup :: "MeiliSearch option \<Rightarrow> string \<Rightarrow> nat \<Rightarrow> 'p event list \<times> nat" where
  "onIndexSetup client name uid =
     (case client of
        None \<Rightarrow> ([], uid)
      | Some c \<Rightarrow>
          if name \<in> set (noIndex c) then ([GetOrCreateIndex name], uid)
          else
            ([GetOrCreateIndex name,
              UpdateSearchableAttributes name [''username''] uid,
              UpdateSortableAttributes name sortableAttributes (Suc uid),
              WaitForTasks [uid, Suc uid]],
             Suc (Suc uid)))"

subsection \<open>The queries of onIndexUpdate\<close>

definition queue_findMany :: "'p PrismaClient \<Rightarrow> string \<Rightarrow> int list" where
  "queue_findMany d kind =
     map queue_id (filter (\<lambda>q. queue_type q = kind) (searchIndexUpdateQueue d))"

text \<open>The \<^verbatim>\<open>where\<close> of the user query: \<^verbatim>\<open>deletedAt: null\<close> and the optional \<^verbatim>\<open>OR\<close>.\<close>

definition user_where :: "int option \<Rightarrow> int list \<Rightarrow> 'p User \<Rightarrow> bool" where
  "user_where lastUpdated queuedIds u =
     (deletedAt u = None \<and>
      (case lastUpdated of
         None \<Rightarrow> True
       | Some t \<Rightarrow> t < createdAt u \<or> user_id u \<in> set queuedIds))"

definition metric_select :: "UserMetric \<Rightarrow> js_object" where
  "metric_select m =
     [(''followerCount'', followerCount m),
      (''uploadCount'', uploadCount m),
      (''followingCount'', followingCount m),
      (''reviewCount'', reviewCount m),
      (''answerAcceptCount'', answerAcceptCount m),
      (''hiddenCount'', hiddenCount m)]"

text \<open>The \<^verbatim>\<open>select\<close>: the metrics relation is filtered to the all-time time frame.\<close>

definition user_select :: "'p User \<Rightarrow> 'p userRecord" where
  "user_select u =
     \<lparr>rec_id = user_id u,
      rec_columns = columns u,
      rec_rank = rank u,
      rec_metrics =
        map_option (\<lambda>ms. map metric_select (filter (\<lambda>m. timeframe m = AllTime) ms)) (metrics u)\<rparr>"

definition user_findMany ::
  "'p PrismaClient \<Rightarrow> nat \<Rightarrow> nat \<Rightarrow> int option \<Rightarrow> int list \<Rightarrow> 'p userRecord list" where
  "user_findMany d skip tk lastUpdated queuedIds =
     map user_select (take tk (drop skip (filter (user_where lastUpdated queuedIds) (user d))))"

subsection \<open>The transformer\<close>

text \<open>
  The callback of \<^verbatim>\<open>users.map\<close>: the row with \<^verbatim>\<open>metrics\<close> replaced by a copy of
  \<^verbatim>\<open>userRecord.metrics[0] || {}\<close>.
\<close>

definition toIndexReadyRecord :: "'p userRecord \<Rightarrow> error + 'p indexReadyRecord" where
  "toIndexReadyRecord userRecord =
     (case rec_metrics userRecord of
        None \<Rightarrow> Inl TypeError
      | Some ms \<Rightarrow>
          Inr \<lparr>doc_id = rec_id userRecord,
               doc_columns = rec_columns userRecord,
               doc_rank = rec_rank userRecord,
               doc_metrics = (case ms of [] \<Rightarrow> [] | m # _ \<Rightarrow> m)\<rparr>)"

text \<open>\<^verbatim>\<open>Array.prototype.map\<close> with a callback that may throw: the first exception ends it.\<close>

fun array_map :: "('a \<Rightarrow> error + 'b) \<Rightarrow> 'a list \<Rightarrow> error + 'b list" where
  "array_map f [] = Inr []"
| "array_map f (x # xs) =
     (case f x of
        Inl e \<Rightarrow> Inl e
      | Inr y \<Rightarrow> (case array_map f xs of Inl e \<Rightarrow> Inl e | Inr ys \<Rightarrow> Inr (y # ys)))"

subsection \<open>onIndexUpdate\<close>

text \<open>
  The \<^verbatim>\<open>while (true)\<close> loop, from the current \<^verbatim>\<open>offset\<close> and \<^verbatim>\<open>tagTasks\<close>: it
  returns the task uids collected, or the exception that ended it.
\<close>

function update_loop ::
  "'p PrismaClient \<Rightarrow> int option \<Rightarrow> int list \<Rightarrow> nat \<Rightarrow> nat list \<Rightarrow> nat
     \<Rightarrow> (error + nat list) \<times> 'p event list \<times> nat" where
  "update_loop d lastUpdated queuedIds offset tagTasks uid =
     (let users = user_findMany d offset READ_BATCH_SIZE lastUpdated queuedIds in
      if length users = 0 then
        (Inr tagTasks, [UserFindMany offset READ_BATCH_SIZE users], uid)
      else
        (case array_map toIndexReadyRecord users of
           Inl e \<Rightarrow> (Inl e, [UserFindMany offset READ_BATCH_SIZE users], uid)
         | Inr indexReadyRecords \<Rightarrow>
             (case update_loop d lastUpdated queuedIds (offset + length users)
                     (tagTasks @ [uid]) (Suc uid) of
                (r, evs, uid') \<Rightarrow>
                  (r,
                   UserFindMany offset READ_BATCH_SIZE users
                     # UpdateDocuments INDEX_ID indexReadyRecords uid # evs,
                   uid'))))"
  by pat_completeness auto
termination
  by (relation "measure (\<lambda>(d, lastUpdated, queuedIds, offset, tagTasks, uid).
        length (filter (user_where lastUpdated queuedIds) (user d)) - offset)")
     (auto simp: user_findMany_def)

declare update_loop.simps [simp del]

definition onIndexUpdate ::
  "MeiliSearch option \<Rightarrow> 'p SearchIndexRunContext \<Rightarrow> nat
     \<Rightarrow> (error + unit) \<times> 'p event list \<times> nat" where
  "onIndexUpdate client ctx uid =
     (case client of
        None \<Rightarrow> (Inr (), [], uid)
      | Some c \<Rightarrow>
          (case onIndexSetup client (indexName ctx) uid of
             (evs0, uid1) \<Rightarrow>
               (let queuedItems = queue_findMany (db ctx) INDEX_ID in
                case update_loop (db ctx) (lastUpdatedAt ctx) queuedItems 0 [] uid1 of
                  (Inl e, evs, uid2) \<Rightarrow>
                    (Inl e, evs0 @ QueueFindMany INDEX_ID # evs, uid2)
                | (Inr tagTasks, evs, uid2) \<Rightarrow>
                    (Inr (), evs0 @ QueueFindMany INDEX_ID # evs @ [WaitForTasks tagTasks],
                     uid2))))"

subsection \<open>Observations on the events of a run\<close>

text \<open>The upsert batches of a run: index name, documents and task uid of each.\<close>

fun upserts :: "'p event list \<Rightarrow> (string \<times> 'p indexReadyRecord list \<times> nat) list" where
  "upserts [] = []"
| "upserts (UpdateDocuments ix docs t # evs) = (ix, docs, t) # upserts evs"
| "upserts (_ # evs) = upserts evs"

definition upsert_targets :: "'p event list \<Rightarrow> string list" where
  "upsert_targets evs = map (\<lambda>(ix, docs, t). ix) (upserts evs)"

definition upsert_batches :: "'p event list \<Rightarrow> 'p indexReadyRecord list list" where
  "upsert_batches evs = map (\<lambda>(ix, docs, t). docs) (upserts evs)"

definition upsert_tasks :: "'p event list \<Rightarrow> nat list" where
  "upsert_tasks evs = map (\<lambda>(ix, docs, t). t) (upserts evs)"

text \<open>The pages that the user query returned, in order.\<close>

fun pages_read :: "'p event list \<Rightarrow> 'p userRecord list list" where
  "pages_read [] = []"
| "pages_read (UserFindMany s t rows # evs) = rows # pages_read evs"
| "pages_read (_ # evs) = pages_read evs"

text \<open>The rows that the user query matches, as it returns them, without pagination.\<close>

definition matching :: "'p PrismaClient \<Rightarrow> int option \<Rightarrow> int list \<Rightarrow> 'p userRecord list" where
  "matching d lastUpdated queuedIds =
     map user_select (filter (user_where lastUpdated queuedIds) (user d))"

subsection \<open>Sample rows\<close>

definition alice :: "unit User" where
  "alice =
     \<lparr>user_id = 1, createdAt = 10, deletedAt = None, columns = (), rank = None,
      metrics = Some
        [\<lparr>timeframe = Day, followerCount = 1, uploadCount = 0, followingCount = 0,
          reviewCount = 0, answerAcceptCount = 0, hiddenCount = 0\<rparr>,
         \<lparr>timeframe = AllTime, followerCount = 7, uploadCount = 3, followingCount = 2,
          reviewCount = 5, answerAcceptCount = 1, hiddenCount = 0\<rparr>]\<rparr>"

definition bob :: "unit User" where
  "bob = \<lparr>user_id = 2, createdAt = 30, deletedAt = None, columns = (), rank = None,
          metrics = Some []\<rparr>"

definition carol :: "unit User" where
  "carol = \<lparr>user_id = 3, createdAt = 5, deletedAt = Some 20, columns = (), rank = None,
            metrics = Some []\<rparr>"

definition engine :: MeiliSearch where
  "engine = \<lparr>noIndex = []\<rparr>"

subsection \<open>The selection predicate in the words of the specification\<close>

text \<open>
  "A row is included if (a) watermark is absent, or (b) the row's last-modified time
  is strictly greater than watermark, or (c) the row's id is in pendingIds." The one
  time of a row that the query compares with the watermark is \<^verbatim>\<open>createdAt\<close>.
\<close>

definition spec_selected :: "int option \<Rightarrow> int list \<Rightarrow> 'p User \<Rightarrow> bool" where
  "spec_selected watermark pendingIds row =
     ((case watermark of None \<Rightarrow> True | Some t \<Rightarrow> t < createdAt row)
      \<or> user_id row \<in> set pendingIds)"

subsection \<open>The incremental run of the orchestrator\<close>

text \<open>
  Modelled from the spec: \<^verbatim>\<open>clear(ids, indexKind)\<close> of the change queue, whose code
  (the processor built by \<^verbatim>\<open>createSearchIndexUpdateProcessor\<close>) is not part of the
  sources. It "deletes entries for ids".
\<close>

definition queue_clear :: "int list \<Rightarrow> string \<Rightarrow> QueueItem list \<Rightarrow> QueueItem list" where
  "queue_clear ids kind items =
     filter (\<lambda>i. \<not> (queue_type i = kind \<and> queue_id i \<in> set ids)) items"

text \<open>The task uids that the joins of a run have waited for.\<close>

fun joined :: "'p event list \<Rightarrow> nat list" where
  "joined [] = []"
| "joined (WaitForTasks ts # evs) = ts @ joined evs"
| "joined (_ # evs) = joined evs"

text \<open>The ids of the documents that a run has upserted: its processed entity ids.\<close>

definition processed_ids :: "'p event list \<Rightarrow> int list" where
  "processed_ids evs = map doc_id (concat (upsert_batches evs))"

datatype run_failure = Exception error | TaskFailure "nat list"

text \<open>
  Modelled from the spec: the incremental path of the orchestrator, whose code
  (\<^verbatim>\<open>createSearchIndexUpdateProcessor\<close>) is not part of the sources. "Watermark
  present. Target = live index. Reads with predicate (b) \<union> (c) against pendingIds
  from the Change Queue." The run itself is \<open>onIndexUpdate\<close> of the sources, which
  awaits its joins and drops their values. The outcome of a join is the one of the
  specification, "success | failure-with-list-of-failed-tasks", where "a single
  failed task fails the join": \<open>failedTasks\<close> are the task uids that the index engine
  reports as failed. A failure of a step or of a task "fails the run, watermark/queue
  untouched". "On success, clears processed queue entries", \<^verbatim>\<open>clear\<close> being "called
  only after confirmed upsert": the entries cleared are those of the documents that
  the run has upserted. Without a client "every operation" is "a no-op that returns
  success". The result is the outcome, the store after the run, the events and the
  next task uid.
\<close>

definition incremental_run ::
  "MeiliSearch option \<Rightarrow> nat list \<Rightarrow> 'p PrismaClient \<Rightarrow> int \<Rightarrow> nat
     \<Rightarrow> (run_failure + unit) \<times> 'p PrismaClient \<times> 'p event list \<times> nat" where
  "incremental_run client failedTasks d watermark uid =
     (case client of
        None \<Rightarrow> (Inr (), d, [], uid)
      | Some c \<Rightarrow>
          (case onIndexUpdate client
                  \<lparr>db = d, lastUpdatedAt = Some watermark, indexName = INDEX_ID\<rparr> uid of
             (Inl e, evs, uid') \<Rightarrow> (Inl (Exception e), d, evs, uid')
           | (Inr done, evs, uid') \<Rightarrow>
               (let failed = filter (\<lambda>t. t \<in> set failedTasks) (joined evs) in
                if failed \<noteq> [] then (Inl (TaskFailure failed), d, evs, uid')
                else
                  (Inr (),
                   d\<lparr>searchIndexUpdateQueue :=
                        queue_clear (processed_ids evs) INDEX_ID (searchIndexUpdateQueue d)\<rparr>,
                   evs @ [QueueDeleteMany INDEX_ID (processed_ids evs)],
                   uid'))))"

subsection \<open>Sample stores\<close>

definition store :: "unit PrismaClient" where
  "store =
     \<lparr>user = [alice, bob, carol],
      searchIndexUpdateQueue =
        [\<lparr>queue_id = 1, queue_type = ''creators''\<rparr>,
         \<lparr>queue_id = 1, queue_type = ''creators''\<rparr>,
         \<lparr>queue_id = 2, queue_type = ''models''\<rparr>]\<rparr>"

definition store_once :: "unit PrismaClient" where
  "store_once =
     \<lparr>user = [alice, bob, carol],
      searchIndexUpdateQueue = [\<lparr>queue_id = 1, queue_type = ''creators''\<rparr>]\<rparr>"

text \<open>A store whose queue also names a soft-deleted user and a user that is not there.\<close>

definition store_pending :: "unit PrismaClient" where
  "store_pending =
     \<lparr>user = [alice, bob, carol],
      searchIndexUpdateQueue =
        [\<lparr>queue_id = 1, queue_type = ''creators''\<rparr>,
         \<lparr>queue_id = 3, queue_type = ''creators''\<rparr>,
         \<lparr>queue_id = 1, queue_type = ''creators''\<rparr>,
         \<lparr>queue_id = 99, queue_type = ''creators''\<rparr>,
         \<lparr>queue_id = 2, queue_type = ''models''\<rparr>]\<rparr>"

text \<open>A store of 1001 users, one more than a page holds.\<close>

definition crowd :: "unit PrismaClient" where
  "crowd =
     \<lparr>user = map (\<lambda>i. \<lparr>user_id = int i, createdAt = 0, deletedAt = None, columns = (),
                         rank = None, metrics = Some []\<rparr>) [0..<1001],
      searchIndexUpdateQueue = []\<rparr>"

definition bootstrap :: "unit PrismaClient \<Rightarrow> unit SearchIndexRunContext" where
  "bootstrap d = \<lparr>db = d, lastUpdatedAt = None, indexName = SWAP_INDEX_ID\<rparr>"

definition incremental :: "unit PrismaClient \<Rightarrow> int \<Rightarrow> unit SearchIndexRunContext" where
  "incremental d t = \<lparr>db = d, lastUpdatedAt = Some t, indexName = INDEX_ID\<rparr>"

section \<open>Properties\<close>

subsection \<open>Pages and the transformer\<close>

lemma user_findMany_matching:
  "user_findMany d off n lu q = take n (drop off (matching d lu q))"
  by (simp add: user_findMany_def matching_def take_map drop_map)

lemma upserts_append: "upserts (xs @ ys) = upserts xs @ upserts ys"
  by (induction xs rule: upserts.induct) simp_all

lemma pages_read_append: "pages_read (xs @ ys) = pages_read xs @ pages_read ys"
  by (induction xs rule: pages_read.induct) simp_all

lemma array_map_length: "array_map f xs = Inr ys \<Longrightarrow> length ys = length xs"
  by (induction xs arbitrary: ys) (auto split: sum.splits)

lemma array_map_ids:
  "array_map toIndexReadyRecord xs = Inr ys \<Longrightarrow> map doc_id ys = map rec_id xs"
  by (induction xs arbitrary: ys)
     (auto simp: toIndexReadyRecord_def split: sum.splits option.splits)

lemma array_map_Inr_iff:
  "(\<exists>ys. array_map toIndexReadyRecord xs = Inr ys) \<longleftrightarrow> (\<forall>r \<in> set xs. rec_metrics r \<noteq> None)"
  by (induction xs) (auto simp: toIndexReadyRecord_def split: sum.splits option.splits)

lemma array_map_append:
  "array_map f xs = Inr ys \<Longrightarrow> array_map f xs' = Inr ys' \<Longrightarrow>
     array_map f (xs @ xs') = Inr (ys @ ys')"
  by (induction xs arbitrary: ys) (auto split: sum.splits)

lemma take_drop_rest: "drop (length (take n xs)) xs = drop n xs"
  by (cases "n \<le> length xs") (simp_all add: min_def)

lemma page_split:
  "take n (drop off xs) @ drop (off + length (take n (drop off xs))) xs = drop off xs"
proof -
  have "drop (off + length (take n (drop off xs))) xs
      = drop (length (take n (drop off xs))) (drop off xs)"
    by (simp add: add.commute)
  also have "\<dots> = drop n (drop off xs)"
    by (rule take_drop_rest)
  finally show ?thesis
    by (simp only: append_take_drop_id)
qed

subsection \<open>One turn of the loop\<close>

lemma update_loop_cases [consumes 1, case_names empty throw step]:
  assumes "update_loop d lu q off ts uid = (r, evs, uid')"
  obtains
    "user_findMany d off READ_BATCH_SIZE lu q = []" "r = Inr ts"
      "evs = [UserFindMany off READ_BATCH_SIZE []]" "uid' = uid"
  | e where "user_findMany d off READ_BATCH_SIZE lu q \<noteq> []"
      "array_map toIndexReadyRecord (user_findMany d off READ_BATCH_SIZE lu q) = Inl e"
      "r = Inl e"
      "evs = [UserFindMany off READ_BATCH_SIZE (user_findMany d off READ_BATCH_SIZE lu q)]"
      "uid' = uid"
  | docs evs1 where "user_findMany d off READ_BATCH_SIZE lu q \<noteq> []"
      "array_map toIndexReadyRecord (user_findMany d off READ_BATCH_SIZE lu q) = Inr docs"
      "update_loop d lu q (off + length (user_findMany d off READ_BATCH_SIZE lu q))
         (ts @ [uid]) (Suc uid) = (r, evs1, uid')"
      "evs = UserFindMany off READ_BATCH_SIZE (user_findMany d off READ_BATCH_SIZE lu q)
               # UpdateDocuments INDEX_ID docs uid # evs1"
  using assms
  by (subst (asm) update_loop.simps)
     (auto simp: Let_def split: if_splits sum.splits prod.splits)

lemma loop_targets:
  "update_loop d lu q off ts uid = (r, evs, uid') \<Longrightarrow> set (upsert_targets evs) \<subseteq> {INDEX_ID}"
proof (induction d lu q off ts uid arbitrary: r evs uid' rule: update_loop.induct)
  case (1 d lu q off ts uid)
  from "1.prems" show ?case
  proof (cases rule: update_loop_cases)
    case (step docs evs1)
    from "1.IH"[OF refl _ step(2) step(3)] step(1) step(4) show ?thesis
      by (simp add: upsert_targets_def)
  qed (simp_all add: upsert_targets_def)
qed

lemma loop_tasks:
  "update_loop d lu q off ts uid = (Inr ts', evs, uid') \<Longrightarrow> ts' = ts @ upsert_tasks evs"
proof (induction d lu q off ts uid arbitrary: ts' evs uid' rule: update_loop.induct)
  case (1 d lu q off ts uid)
  from "1.prems" show ?case
  proof (cases rule: update_loop_cases)
    case (step docs evs1)
    from "1.IH"[OF refl _ step(2) step(3)] step(1) step(4) show ?thesis
      by (simp add: upsert_tasks_def)
  qed (simp_all add: upsert_tasks_def)
qed

lemma loop_pages_concat:
  "update_loop d lu q off ts uid = (Inr ts', evs, uid') \<Longrightarrow>
     concat (pages_read evs) = drop off (matching d lu q)"
proof (induction d lu q off ts uid arbitrary: ts' evs uid' rule: update_loop.induct)
  case (1 d lu q off ts uid)
  from "1.prems" show ?case
  proof (cases rule: update_loop_cases)
    case empty
    then show ?thesis by (simp add: user_findMany_matching READ_BATCH_SIZE_def)
  next
    case (step docs evs1)
    from "1.IH"[OF refl _ step(2) step(3)] step(1)
    have "concat (pages_read evs1)
        = drop (off + length (user_findMany d off READ_BATCH_SIZE lu q)) (matching d lu q)"
      by simp
    with step(4) have "concat (pages_read evs)
        = user_findMany d off READ_BATCH_SIZE lu q
          @ drop (off + length (user_findMany d off READ_BATCH_SIZE lu q)) (matching d lu q)"
      by simp
    then show ?thesis
      by (simp only: user_findMany_matching page_split)
  qed simp_all
qed

lemma loop_docs_take:
  "update_loop d lu q off ts uid = (r, evs, uid') \<Longrightarrow>
     array_map toIndexReadyRecord
       (take (length (concat (upsert_batches evs))) (drop off (matching d lu q)))
       = Inr (concat (upsert_batches evs))"
proof (induction d lu q off ts uid arbitrary: r evs uid' rule: update_loop.induct)
  case (1 d lu q off ts uid)
  from "1.prems" show ?case
  proof (cases rule: update_loop_cases)
    case (step docs evs1)
    let ?page = "user_findMany d off READ_BATCH_SIZE lu q"
    let ?rest = "drop (off + length ?page) (matching d lu q)"
    let ?k = "length (concat (upsert_batches evs1))"
    from "1.IH"[OF refl _ step(2) step(3)] step(1)
    have "array_map toIndexReadyRecord (take ?k ?rest) = Inr (concat (upsert_batches evs1))"
      by simp
    from array_map_append[OF step(2) this]
    have "array_map toIndexReadyRecord (?page @ take ?k ?rest)
        = Inr (docs @ concat (upsert_batches evs1))" .
    moreover have "?page @ ?rest = drop off (matching d lu q)"
      by (simp only: user_findMany_matching page_split)
    then have "take (length docs + ?k) (drop off (matching d lu q)) = ?page @ take ?k ?rest"
      using array_map_length[OF step(2)] by (metis append_eq_conv_conj take_add)
    ultimately show ?thesis
      using step(4) by (simp add: upsert_batches_def)
  qed (simp_all add: upsert_batches_def)
qed

lemma loop_docs_all:
  "update_loop d lu q off ts uid = (Inr ts', evs, uid') \<Longrightarrow>
     array_map toIndexReadyRecord (drop off (matching d lu q))
       = Inr (concat (upsert_batches evs))"
proof (induction d lu q off ts uid arbitrary: ts' evs uid' rule: update_loop.induct)
  case (1 d lu q off ts uid)
  from "1.prems" show ?case
  proof (cases rule: update_loop_cases)
    case empty
    then show ?thesis
      by (simp add: user_findMany_matching READ_BATCH_SIZE_def upsert_batches_def)
  next
    case (step docs evs1)
    let ?page = "user_findMany d off READ_BATCH_SIZE lu q"
    from "1.IH"[OF refl _ step(2) step(3)] step(1)
    have "array_map toIndexReadyRecord (drop (off + length ?page) (matching d lu q))
        = Inr (concat (upsert_batches evs1))"
      by simp
    from array_map_append[OF step(2) this]
    have "array_map toIndexReadyRecord (?page @ drop (off + length ?page) (matching d lu q))
        = Inr (docs @ concat (upsert_batches evs1))" .
    moreover have "?page @ drop (off + length ?page) (matching d lu q) = drop off (matching d lu q)"
      by (simp only: user_findMany_matching page_split)
    ultimately show ?thesis
      using step(4) by (simp add: upsert_batches_def)
  qed simp_all
qed

lemma loop_throw:
  "update_loop d lu q off ts uid = (Inl e, evs, uid') \<Longrightarrow>
     e = TypeError \<and> (\<exists>u \<in> set (drop off (matching d lu q)). rec_metrics u = None)"
proof (induction d lu q off ts uid arbitrary: evs uid' rule: update_loop.induct)
  case (1 d lu q off ts uid)
  from "1.prems" show ?case
  proof (cases rule: update_loop_cases)
    case (throw e')
    then have "\<not> (\<exists>ys. array_map toIndexReadyRecord (user_findMany d off READ_BATCH_SIZE lu q) = Inr ys)"
      by simp
    then obtain u where "u \<in> set (take READ_BATCH_SIZE (drop off (matching d lu q)))" "rec_metrics u = None"
      unfolding array_map_Inr_iff user_findMany_matching by blast
    then show ?thesis by (cases e) (blast dest: in_set_takeD)
  next
    case (step docs evs1)
    from "1.IH"[OF refl _ step(2) step(3)] step(1)
    obtain u where "u \<in> set (drop (off + length (user_findMany d off READ_BATCH_SIZE lu q)) (matching d lu q))" "rec_metrics u = None"
      by auto
    then show ?thesis
      by (cases e) (metis add.commute drop_drop in_set_dropD)
  qed simp_all
qed

lemma loop_pages_shape:
  "update_loop d lu q off ts uid = (Inr ts', evs, uid') \<Longrightarrow>
     pages_read evs \<noteq> [] \<and> last (pages_read evs) = [] \<and> [] \<notin> set (butlast (pages_read evs))"
proof (induction d lu q off ts uid arbitrary: ts' evs uid' rule: update_loop.induct)
  case (1 d lu q off ts uid)
  from "1.prems" show ?case
  proof (cases rule: update_loop_cases)
    case (step docs evs1)
    from "1.IH"[OF refl _ step(2) step(3)] step(1) step(4) show ?thesis by auto
  qed simp_all
qed

lemma pages_count_step:
  assumes "0 < (n::nat)"
  shows "(n - min n 1000 + 999) div 1000 + 1 = (n + 999) div 1000"
proof (cases "n < 1000")
  case True
  with assms have "(n + 999) div 1000 = 1" by simp
  with True show ?thesis by simp
next
  case False
  then obtain m where n: "n = m + 1000"
    by (metis le_add_diff_inverse2 not_less)
  show ?thesis unfolding n by simp
qed

lemma user_where_set:
  "set q = set q' \<Longrightarrow> user_where lu q = user_where lu q'"
  by (rule ext) (auto simp: user_where_def split: option.splits)

lemma user_findMany_cong:
  "user d = user d' \<Longrightarrow> set q = set q' \<Longrightarrow>
     user_findMany d off n lu q = user_findMany d' off n lu q'"
  by (simp add: user_findMany_def user_where_set[of q q'])

lemma update_loop_unfold:
  "update_loop d lu q off ts uid =
     (if user_findMany d off READ_BATCH_SIZE lu q = [] then
        (Inr ts, [UserFindMany off READ_BATCH_SIZE []], uid)
      else
        (case array_map toIndexReadyRecord (user_findMany d off READ_BATCH_SIZE lu q) of
           Inl e \<Rightarrow>
             (Inl e,
              [UserFindMany off READ_BATCH_SIZE (user_findMany d off READ_BATCH_SIZE lu q)], uid)
         | Inr docs \<Rightarrow>
             (case update_loop d lu q
                     (off + length (user_findMany d off READ_BATCH_SIZE lu q))
                     (ts @ [uid]) (Suc uid) of
                (r, evs, uid') \<Rightarrow>
                  (r,
                   UserFindMany off READ_BATCH_SIZE (user_findMany d off READ_BATCH_SIZE lu q)
                     # UpdateDocuments INDEX_ID docs uid # evs,
                   uid'))))"
  by (simp only: update_loop.simps[of d lu q off ts uid] Let_def length_0_conv) simp

lemma loop_queue_set:
  assumes "user d = user d'" "set q = set q'"
  shows "update_loop d lu q off ts uid = update_loop d' lu q' off ts uid"
  using assms
proof (induction d lu q off ts uid rule: update_loop.induct)
  case (1 d lu q off ts uid)
  let ?page = "user_findMany d off READ_BATCH_SIZE lu q"
  have page: "user_findMany d' off READ_BATCH_SIZE lu q' = ?page"
    using "1.prems" by (intro user_findMany_cong) simp_all
  show ?case
  proof (cases "?page = []")
    case True
    then show ?thesis
      by (simp add: update_loop_unfold[of d lu q off ts uid] update_loop_unfold[of d' lu q' off ts uid] page)
  next
    case False
    show ?thesis
    proof (cases "array_map toIndexReadyRecord ?page")
      case (Inl e)
      with False show ?thesis
        by (simp add: update_loop_unfold[of d lu q off ts uid] update_loop_unfold[of d' lu q' off ts uid] page)
    next
      case (Inr docs)
      from "1.IH"[OF refl _ Inr "1.prems"] False
      have "update_loop d lu q (off + length ?page) (ts @ [uid]) (Suc uid)
          = update_loop d' lu q' (off + length ?page) (ts @ [uid]) (Suc uid)"
        by simp
      with False Inr show ?thesis
        by (simp add: update_loop_unfold[of d lu q off ts uid] update_loop_unfold[of d' lu q' off ts uid] page)
    qed
  qed
qed

lemma loop_pages_count:
  "update_loop d lu q off ts uid = (Inr ts', evs, uid') \<Longrightarrow>
     length (pages_read evs)
       = (length (matching d lu q) - off + (READ_BATCH_SIZE - 1)) div READ_BATCH_SIZE + 1"
proof (induction d lu q off ts uid arbitrary: ts' evs uid' rule: update_loop.induct)
  case (1 d lu q off ts uid)
  from "1.prems" show ?case
  proof (cases rule: update_loop_cases)
    case empty
    then show ?thesis by (simp add: user_findMany_matching READ_BATCH_SIZE_def)
  next
    case (step docs evs1)
    define n where "n = length (matching d lu q) - off"
    define k where "k = length (user_findMany d off READ_BATCH_SIZE lu q)"
    have k: "k = min n 1000"
      by (simp add: k_def n_def user_findMany_matching READ_BATCH_SIZE_def min.commute)
    from step(1) have pos: "0 < n"
      by (simp add: n_def user_findMany_matching READ_BATCH_SIZE_def)
    from "1.IH"[OF refl _ step(2) step(3)] step(1)
    have "length (pages_read evs1) = (length (matching d lu q) - (off + k) + 999) div 1000 + 1"
      by (simp add: k_def READ_BATCH_SIZE_def)
    also have "length (matching d lu q) - (off + k) = n - min n 1000"
      by (simp add: n_def k)
    finally have "length (pages_read evs1) = (n + 999) div 1000"
      by (simp only: pages_count_step[OF pos])
    then show ?thesis
      using step(4) by (simp add: READ_BATCH_SIZE_def n_def)
  qed simp_all
qed

lemma loop_pages_bound:
  "update_loop d lu q off ts uid = (r, evs, uid') \<Longrightarrow>
     length (pages_read evs)
       \<le> (length (matching d lu q) - off + (READ_BATCH_SIZE - 1)) div READ_BATCH_SIZE + 1"
proof (induction d lu q off ts uid arbitrary: r evs uid' rule: update_loop.induct)
  case (1 d lu q off ts uid)
  from "1.prems" show ?case
  proof (cases rule: update_loop_cases)
    case (step docs evs1)
    define n where "n = length (matching d lu q) - off"
    define k where "k = length (user_findMany d off READ_BATCH_SIZE lu q)"
    have k: "k = min n 1000"
      by (simp add: k_def n_def user_findMany_matching READ_BATCH_SIZE_def min.commute)
    from step(1) have pos: "0 < n"
      by (simp add: n_def user_findMany_matching READ_BATCH_SIZE_def)
    from "1.IH"[OF refl _ step(2) step(3)] step(1)
    have "length (pages_read evs1) \<le> (length (matching d lu q) - (off + k) + 999) div 1000 + 1"
      by (simp add: k_def READ_BATCH_SIZE_def)
    also have "length (matching d lu q) - (off + k) = n - min n 1000"
      by (simp add: n_def k)
    finally have "length (pages_read evs1) \<le> (n + 999) div 1000"
      by (simp only: pages_count_step[OF pos])
    then show ?thesis
      using step(4) by (simp add: READ_BATCH_SIZE_def n_def)
  qed simp_all
qed


lemma distinct_concat_disjoint:
  "distinct (concat xss) \<Longrightarrow> i < j \<Longrightarrow> j < length xss \<Longrightarrow> set (xss ! i) \<inter> set (xss ! j) = {}"
proof (induction xss arbitrary: i j)
  case Nil
  then show ?case by simp
next
  case (Cons xs xss)
  show ?case
  proof (cases i)
    case 0
    with Cons.prems obtain j' where j: "j = Suc j'" "j' < length xss"
      by (cases j) auto
    with Cons.prems(1) 0 show ?thesis
      by (auto dest: nth_mem)
  next
    case (Suc i')
    with Cons.prems obtain j' where j: "j = Suc j'" "i' < j'" "j' < length xss"
      by (cases j) auto
    with Cons.IH[of i' j'] Cons.prems(1) Suc show ?thesis by simp
  qed
qed

lemma loop_batches_pages:
  "update_loop d lu q off ts uid = (r, evs, uid') \<Longrightarrow>
     pages_read evs \<noteq> [] \<and>
     array_map (array_map toIndexReadyRecord) (butlast (pages_read evs))
       = Inr (upsert_batches evs)"
proof (induction d lu q off ts uid arbitrary: r evs uid' rule: update_loop.induct)
  case (1 d lu q off ts uid)
  from "1.prems" show ?case
  proof (cases rule: update_loop_cases)
    case (step docs evs1)
    from "1.IH"[OF refl _ step(2) step(3)] step(1) step(2) step(4) show ?thesis
      by (simp add: upsert_batches_def)
  qed (simp_all add: upsert_batches_def)
qed

lemma loop_no_delete:
  "update_loop d lu q off ts uid = (r, evs, uid') \<Longrightarrow> QueueDeleteMany k ids \<notin> set evs"
proof (induction d lu q off ts uid arbitrary: r evs uid' rule: update_loop.induct)
  case (1 d lu q off ts uid)
  from "1.prems" show ?case
  proof (cases rule: update_loop_cases)
    case (step docs evs1)
    from "1.IH"[OF refl _ step(2) step(3)] step(1) step(4) show ?thesis by simp
  qed simp_all
qed

subsection \<open>A run as its parts\<close>

lemma setup_observations:
  assumes "onIndexSetup client name uid = (evs0, uid1)"
  shows "upserts evs0 = []" and "pages_read evs0 = []"
  using assms by (auto simp: onIndexSetup_def split: option.splits if_splits)

lemma onIndexUpdate_success [consumes 1]:
  assumes "onIndexUpdate (Some c) ctx uid = (Inr (), evs, uid')"
  obtains evs0 uid1 ts evs1 where
    "onIndexSetup (Some c) (indexName ctx) uid = (evs0, uid1)"
    "update_loop (db ctx) (lastUpdatedAt ctx) (queue_findMany (db ctx) INDEX_ID) 0 [] uid1
       = (Inr ts, evs1, uid')"
    "evs = evs0 @ QueueFindMany INDEX_ID # evs1 @ [WaitForTasks ts]"
  using assms
  by (auto simp: onIndexUpdate_def Let_def split: prod.splits sum.splits)

lemma onIndexUpdate_failure [consumes 1]:
  assumes "onIndexUpdate (Some c) ctx uid = (Inl e, evs, uid')"
  obtains evs0 uid1 evs1 where
    "onIndexSetup (Some c) (indexName ctx) uid = (evs0, uid1)"
    "update_loop (db ctx) (lastUpdatedAt ctx) (queue_findMany (db ctx) INDEX_ID) 0 [] uid1
       = (Inl e, evs1, uid')"
    "evs = evs0 @ QueueFindMany INDEX_ID # evs1"
  using assms
  by (auto simp: onIndexUpdate_def Let_def split: prod.splits sum.splits)

lemma setup_no_delete:
  "onIndexSetup client name uid = (evs0, uid1) \<Longrightarrow> QueueDeleteMany k ids \<notin> set evs0"
  by (auto simp: onIndexSetup_def split: option.splits if_splits)

lemma onIndexUpdate_cases [consumes 1]:
  assumes "onIndexUpdate (Some c) ctx uid = (r, evs, uid')"
  obtains evs0 uid1 r1 evs1 where
    "onIndexSetup (Some c) (indexName ctx) uid = (evs0, uid1)"
    "update_loop (db ctx) (lastUpdatedAt ctx) (queue_findMany (db ctx) INDEX_ID) 0 [] uid1
       = (r1, evs1, uid')"
    "upserts evs = upserts evs1"
    "pages_read evs = pages_read evs1"
    "r = (case r1 of Inl e \<Rightarrow> Inl e | Inr ts \<Rightarrow> Inr ())"
    "evs = evs0 @ QueueFindMany INDEX_ID # evs1
             @ (case r1 of Inl e \<Rightarrow> [] | Inr ts \<Rightarrow> [WaitForTasks ts])"
proof (cases r)
  case (Inl e)
  from assms[unfolded Inl] show ?thesis
  proof (cases rule: onIndexUpdate_failure)
    case (1 evs0 uid1 evs1)
    show ?thesis
      using setup_observations[OF 1(1)] 1 Inl
      by (intro that[of evs0 uid1 "Inl e" evs1]) (simp_all add: upserts_append pages_read_append)
  qed
next
  case (Inr u)
  then have "r = Inr ()" by simp
  from assms[unfolded this] show ?thesis
  proof (cases rule: onIndexUpdate_success)
    case (1 evs0 uid1 ts evs1)
    show ?thesis
      using setup_observations[OF 1(1)] 1 Inr
      by (intro that[of evs0 uid1 "Inr ts" evs1]) (simp_all add: upserts_append pages_read_append)
  qed
qed

lemma matching_ids:
  "map rec_id (matching d lu q) = map user_id (filter (user_where lu q) (user d))"
  by (simp add: matching_def user_select_def)

subsection \<open>The events of the incremental run\<close>

lemma joined_append: "joined (xs @ ys) = joined xs @ joined ys"
  by (induction xs rule: joined.induct) simp_all

lemma upserts_mem:
  "(ix, docs, t) \<in> set (upserts evs) \<Longrightarrow> UpdateDocuments ix docs t \<in> set evs"
  by (induction evs rule: upserts.induct) auto

lemma delete_position:
  assumes "\<forall>k ids. QueueDeleteMany k ids \<notin> set xs"
    and "xs @ [QueueDeleteMany k0 ids0] = pre @ QueueDeleteMany k ids # post"
  shows "pre = xs \<and> post = [] \<and> k = k0 \<and> ids = ids0"
  using assms
proof (induction xs arbitrary: pre)
  case Nil
  then show ?case by (cases pre) auto
next
  case (Cons x xs)
  then show ?case by (cases pre) auto
qed

lemma onIndexUpdate_no_delete:
  assumes "onIndexUpdate client ctx uid = (r, evs, uid')"
  shows "QueueDeleteMany k ids \<notin> set evs"
proof (cases client)
  case None
  with assms show ?thesis by (simp add: onIndexUpdate_def)
next
  case (Some c)
  from assms[unfolded Some] show ?thesis
  proof (cases rule: onIndexUpdate_cases)
    case (1 evs0 uid1 r1 evs1)
    from setup_no_delete[OF 1(1)] loop_no_delete[OF 1(2)] 1(6) show ?thesis
      by (cases r1) auto
  qed
qed

text \<open>Whatever the context, the batches of a run go to the index named \<open>INDEX_ID\<close>.\<close>

lemma upsert_target_is_constant:
  assumes "onIndexUpdate client ctx uid = (r, evs, uid')"
  shows "set (upsert_targets evs) \<subseteq> {INDEX_ID}"
proof (cases client)
  case None
  with assms show ?thesis
    by (simp add: onIndexUpdate_def upsert_targets_def)
next
  case (Some c)
  from assms[unfolded Some] show ?thesis
  proof (cases rule: onIndexUpdate_cases)
    case (1 evs0 uid1 r1 evs1)
    from loop_targets[OF 1(2)] 1(3) show ?thesis
      by (simp add: upsert_targets_def)
  qed
qed

subsection \<open>A run of two batches\<close>

lemma crowd_matching:
  "length (matching crowd None q) = 1001"
  "\<forall>u \<in> set (matching crowd None q). rec_metrics u \<noteq> None"
  by (simp_all add: matching_def crowd_def user_where_def user_select_def filter_map comp_def)

lemma crowd_distinct: "distinct (map user_id (user crowd))"
  by (simp add: crowd_def comp_def distinct_map inj_on_def)

lemma crowd_batches:
  "length (upsert_batches (fst (snd (onIndexUpdate (Some engine) (bootstrap crowd) 0)))) = 2"
proof -
  have run: "onIndexUpdate (Some engine) (bootstrap crowd) 0
      = (fst (onIndexUpdate (Some engine) (bootstrap crowd) 0),
         fst (snd (onIndexUpdate (Some engine) (bootstrap crowd) 0)),
         snd (snd (onIndexUpdate (Some engine) (bootstrap crowd) 0)))"
    by simp
  from run show ?thesis
  proof (cases rule: onIndexUpdate_cases)
    case (1 evs0 uid1 r1 evs1)
    let ?q = "queue_findMany (db (bootstrap crowd)) INDEX_ID"
    from 1(2) have loop: "update_loop crowd None ?q 0 [] uid1
        = (r1, evs1, snd (snd (onIndexUpdate (Some engine) (bootstrap crowd) 0)))"
      by (simp add: bootstrap_def)
    obtain ts where r1: "r1 = Inr ts"
    proof (cases r1)
      case (Inl e)
      with loop_throw[OF loop[unfolded Inl]] crowd_matching(2)[of ?q] show ?thesis
        by simp
    qed
    from loop_pages_count[OF loop[unfolded r1]] crowd_matching(1)[of ?q]
    have "length (pages_read evs1) = 3"
      by (simp add: READ_BATCH_SIZE_def)
    moreover from loop_batches_pages[OF loop]
    have "length (upsert_batches evs1) = length (butlast (pages_read evs1))"
      by (auto dest: array_map_length)
    ultimately show ?thesis
      using 1(3) by (simp add: upsert_batches_def)
  qed
qed

section \<open>The claims\<close>

text \<open>
  C1. On a bootstrap run (no watermark) every upsert batch should go to the shadow
  index \<^verbatim>\<open>creators_NEW\<close>, never to the live index. The run below is a bootstrap
  run over a store with one user: the context names the shadow index, which
  \<open>onIndexSetup\<close> configures, yet the one batch of the run is submitted to the live
  index \<^verbatim>\<open>creators\<close>, since \<^verbatim>\<open>client.index\<close> is given \<open>INDEX_ID\<close> where the
  context's index name was meant.
\<close>

theorem bootstrap_upserts_reach_live_index:
  "indexName (bootstrap \<lparr>user = [alice], searchIndexUpdateQueue = []\<rparr>) = ''creators_NEW''
   \<and> lastUpdatedAt (bootstrap \<lparr>user = [alice], searchIndexUpdateQueue = []\<rparr>) = None
   \<and> hd (fst (snd (onIndexUpdate (Some engine)
         (bootstrap \<lparr>user = [alice], searchIndexUpdateQueue = []\<rparr>) 0)))
       = GetOrCreateIndex ''creators_NEW''
   \<and> upsert_targets (fst (snd (onIndexUpdate (Some engine)
         (bootstrap \<lparr>user = [alice], searchIndexUpdateQueue = []\<rparr>) 0))) = [''creators'']"
  by code_simp

text \<open>
  C2, as the specification states it, fails: a row is not read on the sole ground
  that the watermark is absent, that it is newer than the watermark or that it is
  queued. The query also requires \<^verbatim>\<open>deletedAt: null\<close>. In the bootstrap run below
  the soft-deleted row of the store satisfies the predicate of the specification
  and is not among the rows read.
\<close>

theorem soft_deleted_row_not_read:
  "spec_selected (lastUpdatedAt (bootstrap store)) (queue_findMany store INDEX_ID) carol
   \<and> carol \<in> set (user (db (bootstrap store)))
   \<and> user_select carol
       \<notin> set (concat (pages_read (fst (snd (onIndexUpdate (Some engine) (bootstrap store) 0)))))"
  by code_simp

text \<open>
  C2, amended. For every run of \<open>onIndexUpdate\<close> with a client that returns without
  an exception, the rows read, page after page, are exactly the rows of the store,
  in its order, that are not soft-deleted and for which (a) the watermark is absent,
  or (b) the creation time \<^verbatim>\<open>createdAt\<close> is strictly greater than the watermark, or
  (c) the id is among the ids queued for the index kind \<^verbatim>\<open>creators\<close>.
\<close>

theorem read_set_is_selection:
  assumes "onIndexUpdate (Some c) ctx uid = (Inr (), evs, uid')"
  shows "concat (pages_read evs) =
           map user_select
             (filter (\<lambda>u. deletedAt u = None
                          \<and> spec_selected (lastUpdatedAt ctx) (queue_findMany (db ctx) INDEX_ID) u)
                (user (db ctx)))"
  using assms
proof (cases rule: onIndexUpdate_success)
  case (1 evs0 uid1 ts evs1)
  have "pages_read evs0 = []"
    by (rule setup_observations(2)[OF 1(1)])
  then have "concat (pages_read evs) = concat (pages_read evs1)"
    using 1(3) by (simp add: pages_read_append)
  with loop_pages_concat[OF 1(2)]
  have pages: "concat (pages_read evs)
      = matching (db ctx) (lastUpdatedAt ctx) (queue_findMany (db ctx) INDEX_ID)"
    by simp
  have sel: "user_where (lastUpdatedAt ctx) (queue_findMany (db ctx) INDEX_ID)
      = (\<lambda>u. deletedAt u = None
              \<and> spec_selected (lastUpdatedAt ctx) (queue_findMany (db ctx) INDEX_ID) u)"
    by (rule ext) (auto simp: user_where_def spec_selected_def split: option.splits)
  show ?thesis
    by (simp only: pages matching_def sel)
qed

theorem read_set_witness:
  "fst (onIndexUpdate (Some engine) (incremental store 20) 0) = Inr ()
   \<and> concat (pages_read (fst (snd (onIndexUpdate (Some engine) (incremental store 20) 0))))
     = [user_select alice, user_select bob]"
proof -
  have ok: "fst (onIndexUpdate (Some engine) (incremental store 20) 0) = Inr ()"
    by code_simp
  have run: "onIndexUpdate (Some engine) (incremental store 20) 0
      = (Inr (), fst (snd (onIndexUpdate (Some engine) (incremental store 20) 0)),
         snd (snd (onIndexUpdate (Some engine) (incremental store 20) 0)))"
    using ok by (metis prod.collapse)
  have sel: "filter (\<lambda>u. deletedAt u = None
                \<and> spec_selected (lastUpdatedAt (incremental store 20))
                     (queue_findMany (db (incremental store 20)) INDEX_ID) u)
               (user (db (incremental store 20))) = [alice, bob]"
    by (simp add: incremental_def store_def spec_selected_def queue_findMany_def INDEX_ID_def
          alice_def bob_def carol_def)
  from read_set_is_selection[OF run] ok show ?thesis
    by (simp only: sel list.map simp_thms)
qed

text \<open>
  C3, on the incremental run of the orchestrator as the specification describes it,
  around \<open>onIndexUpdate\<close> of the sources. When the run succeeds, the queue entries
  of the index kind \<^verbatim>\<open>creators\<close> whose id is a processed id, the id of a document
  that the run has upserted, are gone, and every other entry and the users are as
  before. An entry is deleted only after its upsert is confirmed: wherever a
  deletion stands among the events of the run, it is the last event, and for each
  id it deletes the events before it hold, in this order, the upsert of a batch
  with a document of that id and a \<^verbatim>\<open>waitForTasks\<close> on the task of that batch,
  a task that the engine does not report as failed.
\<close>

theorem queue_cleared_after_join:
  assumes "incremental_run client failedTasks d watermark uid = (Inr (), d', evs, uid')"
  shows "searchIndexUpdateQueue d'
           = filter (\<lambda>i. \<not> (queue_type i = INDEX_ID \<and> queue_id i \<in> set (processed_ids evs)))
               (searchIndexUpdateQueue d)
         \<and> user d' = user d
         \<and> (\<forall>pre k ids post. evs = pre @ QueueDeleteMany k ids # post \<longrightarrow>
               k = INDEX_ID \<and> post = [] \<and> ids = processed_ids evs
               \<and> (\<forall>i \<in> set ids. \<exists>a b c docs t ts.
                     pre = a @ UpdateDocuments INDEX_ID docs t # b @ WaitForTasks ts # c
                     \<and> i \<in> doc_id ` set docs \<and> t \<in> set ts \<and> t \<notin> set failedTasks))"
proof (cases client)
  case None
  with assms show ?thesis
    by (simp add: incremental_run_def processed_ids_def upsert_batches_def)
next
  case (Some c)
  let ?ctx = "\<lparr>db = d, lastUpdatedAt = Some watermark, indexName = INDEX_ID\<rparr>"
  from assms Some obtain evs2 where
    run: "onIndexUpdate (Some c) ?ctx uid = (Inr (), evs2, uid')" and
    ok: "filter (\<lambda>t. t \<in> set failedTasks) (joined evs2) = []" and
    evs: "evs = evs2 @ [QueueDeleteMany INDEX_ID (processed_ids evs2)]" and
    d': "d' = d\<lparr>searchIndexUpdateQueue :=
              queue_clear (processed_ids evs2) INDEX_ID (searchIndexUpdateQueue d)\<rparr>"
    by (auto simp: incremental_run_def Let_def split: prod.splits sum.splits if_splits)
  have p: "processed_ids evs = processed_ids evs2"
    by (simp add: evs processed_ids_def upsert_batches_def upserts_append)
  from run obtain evs0 uid1 ts evs1 where
    loop: "update_loop d (Some watermark) (queue_findMany d INDEX_ID) 0 [] uid1
             = (Inr ts, evs1, uid')" and
    s: "onIndexSetup (Some c) INDEX_ID uid = (evs0, uid1)" and
    evs2: "evs2 = evs0 @ QueueFindMany INDEX_ID # evs1 @ [WaitForTasks ts]"
    by (cases rule: onIndexUpdate_success) simp
  have ts: "ts = upsert_tasks evs1"
    using loop_tasks[OF loop] by simp
  have ups: "upserts evs2 = upserts evs1"
    using setup_observations(1)[OF s] by (simp add: evs2 upserts_append)
  have named: "\<exists>a b c docs t ts.
        evs2 = a @ UpdateDocuments INDEX_ID docs t # b @ WaitForTasks ts # c
        \<and> i \<in> doc_id ` set docs \<and> t \<in> set ts \<and> t \<notin> set failedTasks"
    if "i \<in> set (processed_ids evs2)" for i
  proof -
    from that ups obtain ix docs t where
      u: "(ix, docs, t) \<in> set (upserts evs1)" and i: "i \<in> doc_id ` set docs"
      by (auto simp: processed_ids_def upsert_batches_def)
    from loop_targets[OF loop] u have ix: "ix = INDEX_ID"
      by (auto simp: upsert_targets_def)
    from u have t: "t \<in> set ts"
      by (force simp: ts upsert_tasks_def)
    from ok have "\<forall>t \<in> set (joined evs2). t \<notin> set failedTasks"
      by (simp add: filter_empty_conv)
    with t have nf: "t \<notin> set failedTasks"
      by (simp add: evs2 joined_append)
    from upserts_mem[OF u] ix obtain x y where "evs1 = x @ UpdateDocuments INDEX_ID docs t # y"
      by (auto dest: split_list)
    then have "evs2 = (evs0 @ QueueFindMany INDEX_ID # x)
        @ UpdateDocuments INDEX_ID docs t # y @ WaitForTasks ts # []"
      by (simp add: evs2)
    with i t nf show ?thesis by blast
  qed
  have nodel: "\<forall>k ids. QueueDeleteMany k ids \<notin> set evs2"
    using onIndexUpdate_no_delete[OF run] by simp
  have only: "k = INDEX_ID \<and> post = [] \<and> ids = processed_ids evs
      \<and> (\<forall>i \<in> set ids. \<exists>a b c docs t ts.
            pre = a @ UpdateDocuments INDEX_ID docs t # b @ WaitForTasks ts # c
            \<and> i \<in> doc_id ` set docs \<and> t \<in> set ts \<and> t \<notin> set failedTasks)"
    if "evs = pre @ QueueDeleteMany k ids # post" for pre k ids post
  proof -
    from delete_position[OF nodel that[unfolded evs]]
    have "pre = evs2" "post = []" "k = INDEX_ID" "ids = processed_ids evs2"
      by simp_all
    with named p show ?thesis by simp
  qed
  from d' p only show ?thesis
    by (simp add: queue_clear_def)
qed

theorem queue_cleared_witness:
  "fst (incremental_run (Some engine) [] store_pending 20 0) = Inr ()
   \<and> processed_ids (fst (snd (snd (incremental_run (Some engine) [] store_pending 20 0)))) = [1, 2]
   \<and> searchIndexUpdateQueue (fst (snd (incremental_run (Some engine) [] store_pending 20 0)))
       = [\<lparr>queue_id = 3, queue_type = ''creators''\<rparr>,
          \<lparr>queue_id = 99, queue_type = ''creators''\<rparr>,
          \<lparr>queue_id = 2, queue_type = ''models''\<rparr>]
   \<and> (\<exists>a b c docs t ts.
         butlast (fst (snd (snd (incremental_run (Some engine) [] store_pending 20 0))))
           = a @ UpdateDocuments INDEX_ID docs t # b @ WaitForTasks ts # c
         \<and> 1 \<in> doc_id ` set docs \<and> t \<in> set ts \<and> t \<notin> set [])"
proof -
  let ?run = "incremental_run (Some engine) [] store_pending 20 0"
  let ?evs = "fst (snd (snd ?run))"
  have ok: "fst ?run = Inr ()"
    by code_simp
  have run: "?run = (Inr (), fst (snd ?run), ?evs, snd (snd (snd ?run)))"
    using ok by (metis prod.collapse)
  have p: "processed_ids ?evs = [1, 2]"
    by code_simp
  have "?evs \<noteq> []" and "last ?evs = QueueDeleteMany INDEX_ID [1, 2]"
    by code_simp+
  then have e: "?evs = butlast ?evs @ QueueDeleteMany INDEX_ID [1, 2] # []"
    by (metis append_butlast_last_id)
  have f: "filter (\<lambda>i. \<not> (queue_type i = INDEX_ID \<and> queue_id i \<in> set [1, 2]))
             (searchIndexUpdateQueue store_pending)
      = [\<lparr>queue_id = 3, queue_type = ''creators''\<rparr>,
         \<lparr>queue_id = 99, queue_type = ''creators''\<rparr>,
         \<lparr>queue_id = 2, queue_type = ''models''\<rparr>]"
    by (simp add: store_pending_def INDEX_ID_def)
  note cleared = queue_cleared_after_join[OF run]
  from cleared have q: "searchIndexUpdateQueue (fst (snd ?run))
      = filter (\<lambda>i. \<not> (queue_type i = INDEX_ID \<and> queue_id i \<in> set (processed_ids ?evs)))
          (searchIndexUpdateQueue store_pending)"
    by blast
  from cleared e have "\<forall>i \<in> set [1, 2 :: int]. \<exists>a b c docs t ts.
      butlast ?evs = a @ UpdateDocuments INDEX_ID docs t # b @ WaitForTasks ts # c
      \<and> i \<in> doc_id ` set docs \<and> t \<in> set ts \<and> t \<notin> set []"
    by blast
  then have "\<exists>a b c docs t ts.
      butlast ?evs = a @ UpdateDocuments INDEX_ID docs t # b @ WaitForTasks ts # c
      \<and> 1 \<in> doc_id ` set docs \<and> t \<in> set ts \<and> t \<notin> set []"
    by simp
  with ok p q f show ?thesis
    by simp
qed

text \<open>
  C4. Without an index engine client (\<^verbatim>\<open>client\<close> is null) \<open>onIndexSetup\<close> and
  \<open>onIndexUpdate\<close> return at once: no exception, no event on the engine or on the
  store, and no task uid taken, whatever the arguments.
\<close>

theorem client_absent_no_op:
  "onIndexSetup None name uid = ([], uid) \<and> onIndexUpdate None ctx uid = (Inr (), [], uid)"
  by (simp add: onIndexSetup_def onIndexUpdate_def)

text \<open>
  C5. When \<open>onIndexUpdate\<close> returns with success on a configured client, the last
  call it made is \<^verbatim>\<open>waitForTasks\<close>, on exactly the task uids of the upsert batches
  of the run, in the order of submission; every batch was submitted before that call.
\<close>

theorem final_join_covers_upserts:
  assumes "onIndexUpdate (Some c) ctx uid = (Inr (), evs, uid')"
  shows "evs \<noteq> [] \<and> last evs = WaitForTasks (upsert_tasks evs)
         \<and> upsert_tasks (butlast evs) = upsert_tasks evs"
  using assms
proof (cases rule: onIndexUpdate_success)
  case (1 evs0 uid1 ts evs1)
  from loop_tasks[OF 1(2)] have ts: "ts = upsert_tasks evs1" by simp
  have "upserts evs0 = []"
    by (rule setup_observations(1)[OF 1(1)])
  then have "upsert_tasks evs = upsert_tasks evs1" "upsert_tasks (butlast evs) = upsert_tasks evs1"
    using 1(3) by (simp_all add: upsert_tasks_def upserts_append butlast_append)
  with ts 1(3) show ?thesis by simp
qed

theorem final_join_witness:
  "fst (onIndexUpdate (Some engine) (incremental store 20) 0) = Inr ()
   \<and> upsert_tasks (fst (snd (onIndexUpdate (Some engine) (incremental store 20) 0))) = [2]
   \<and> last (fst (snd (onIndexUpdate (Some engine) (incremental store 20) 0))) = WaitForTasks [2]"
proof -
  have ok: "fst (onIndexUpdate (Some engine) (incremental store 20) 0) = Inr ()"
    by code_simp
  have t: "upsert_tasks (fst (snd (onIndexUpdate (Some engine) (incremental store 20) 0))) = [2]"
    by code_simp
  have run: "onIndexUpdate (Some engine) (incremental store 20) 0
      = (Inr (), fst (snd (onIndexUpdate (Some engine) (incremental store 20) 0)),
         snd (snd (onIndexUpdate (Some engine) (incremental store 20) 0)))"
    using ok by (metis prod.collapse)
  from final_join_covers_upserts[OF run] ok t show ?thesis by simp
qed

text \<open>
  C6, as the specification states it, fails in its second half: the loop does not
  end on a page shorter than the page size. In the run below the first page holds
  one row, fewer than the 1000 asked for, and the store is queried a second time;
  the loop ends on that second, empty page.
\<close>

theorem short_page_does_not_end_the_loop:
  "pages_read (fst (snd (onIndexUpdate (Some engine)
       (bootstrap \<lparr>user = [bob], searchIndexUpdateQueue = []\<rparr>) 0)))
     = [[user_select bob], []]
   \<and> length [user_select bob] < READ_BATCH_SIZE"
  by code_simp

text \<open>
  C6, amended. The batch-read loop of \<open>onIndexUpdate\<close> terminates for every store:
  with \<open>n\<close> matching rows it issues at most \<open>\<lceil>n / 1000\<rceil> + 1\<close> page reads. A run
  that returns with success issues exactly that many; its last page is empty and
  no earlier page is: the loop ends exactly on a page of zero rows, and a page that
  is shorter than the page size but not empty is followed by another read.
\<close>

theorem read_loop_ends_on_empty_page:
  assumes "onIndexUpdate (Some c) ctx uid = (r, evs, uid')"
  shows "length (pages_read evs)
           \<le> (length (matching (db ctx) (lastUpdatedAt ctx) (queue_findMany (db ctx) INDEX_ID))
                + (READ_BATCH_SIZE - 1)) div READ_BATCH_SIZE + 1
         \<and> (r = Inr () \<longrightarrow>
              length (pages_read evs)
                = (length (matching (db ctx) (lastUpdatedAt ctx) (queue_findMany (db ctx) INDEX_ID))
                    + (READ_BATCH_SIZE - 1)) div READ_BATCH_SIZE + 1
              \<and> last (pages_read evs) = []
              \<and> [] \<notin> set (butlast (pages_read evs)))"
  using assms
proof (cases rule: onIndexUpdate_cases)
  case (1 evs0 uid1 r1 evs1)
  from loop_pages_bound[OF 1(2)] 1(4) have bound: ?thesis if "r \<noteq> Inr ()"
    using that by simp
  show ?thesis
  proof (cases r1)
    case (Inl e)
    with 1(5) bound show ?thesis by simp
  next
    case (Inr ts)
    with 1(2) have loop: "update_loop (db ctx) (lastUpdatedAt ctx)
        (queue_findMany (db ctx) INDEX_ID) 0 [] uid1 = (Inr ts, evs1, uid')"
      by simp
    from loop_pages_count[OF loop] loop_pages_shape[OF loop] 1(4) show ?thesis
      by simp
  qed
qed

theorem read_loop_witness:
  "fst (onIndexUpdate (Some engine) (incremental store 20) 0) = Inr ()
   \<and> pages_read (fst (snd (onIndexUpdate (Some engine) (incremental store 20) 0)))
       = [[user_select alice, user_select bob], []]
   \<and> length (matching (db (incremental store 20)) (lastUpdatedAt (incremental store 20))
        (queue_findMany (db (incremental store 20)) INDEX_ID)) = 2"
proof -
  have ok: "fst (onIndexUpdate (Some engine) (incremental store 20) 0) = Inr ()"
    by code_simp
  have pages: "pages_read (fst (snd (onIndexUpdate (Some engine) (incremental store 20) 0)))
       = [[user_select alice, user_select bob], []]"
    by code_simp
  have m: "length (matching (db (incremental store 20)) (lastUpdatedAt (incremental store 20))
        (queue_findMany (db (incremental store 20)) INDEX_ID)) = 2"
    by code_simp
  have run: "onIndexUpdate (Some engine) (incremental store 20) 0
      = (Inr (), fst (snd (onIndexUpdate (Some engine) (incremental store 20) 0)),
         snd (snd (onIndexUpdate (Some engine) (incremental store 20) 0)))"
    using ok by (metis prod.collapse)
  from read_loop_ends_on_empty_page[OF run] ok pages m show ?thesis
    by simp
qed



text \<open>
  C9. Over a store whose users have pairwise different ids, scanned in one fixed
  order throughout the run, no id occurs twice among the documents that a run of
  \<open>onIndexUpdate\<close> submits, and two different batches of the run share no id.
\<close>

theorem batches_share_no_id:
  assumes "distinct (map user_id (user (db ctx)))"
    and "onIndexUpdate client ctx uid = (r, evs, uid')"
  shows "distinct (map doc_id (concat (upsert_batches evs)))
         \<and> (\<forall>i j. i < j \<and> j < length (upsert_batches evs) \<longrightarrow>
               doc_id ` set (upsert_batches evs ! i) \<inter> doc_id ` set (upsert_batches evs ! j) = {})"
proof -
  have ids: "distinct (map doc_id (concat (upsert_batches evs)))"
  proof (cases client)
    case None
    with assms(2) show ?thesis
      by (simp add: onIndexUpdate_def upsert_batches_def)
  next
    case (Some c)
    from assms(2)[unfolded Some] show ?thesis
    proof (cases rule: onIndexUpdate_cases)
      case (1 evs0 uid1 r1 evs1)
      let ?M = "matching (db ctx) (lastUpdatedAt ctx) (queue_findMany (db ctx) INDEX_ID)"
      from 1(3) have b: "upsert_batches evs = upsert_batches evs1"
        by (simp add: upsert_batches_def)
      from loop_docs_take[OF 1(2)] array_map_ids
      have "map doc_id (concat (upsert_batches evs1))
          = map rec_id (take (length (concat (upsert_batches evs1))) ?M)"
        by fastforce
      moreover have "distinct (map rec_id ?M)"
        using assms(1) by (simp add: matching_ids distinct_map_filter)
      ultimately show ?thesis
        by (simp add: b take_map[symmetric])
    qed
  qed
  then have "distinct (concat (map (map doc_id) (upsert_batches evs)))"
    by (simp add: map_concat)
  from distinct_concat_disjoint[OF this] have
    "\<forall>i j. i < j \<and> j < length (upsert_batches evs) \<longrightarrow>
       doc_id ` set (upsert_batches evs ! i) \<inter> doc_id ` set (upsert_batches evs ! j) = {}"
    by (auto simp del: image_set simp add: image_set[symmetric])
  with ids show ?thesis by simp
qed

theorem batches_share_no_id_witness:
  "distinct (map user_id (user (db (bootstrap crowd))))
   \<and> length (upsert_batches (fst (snd (onIndexUpdate (Some engine) (bootstrap crowd) 0)))) = 2
   \<and> doc_id ` set (upsert_batches (fst (snd (onIndexUpdate (Some engine) (bootstrap crowd) 0))) ! 0)
       \<inter> doc_id ` set (upsert_batches (fst (snd (onIndexUpdate (Some engine) (bootstrap crowd) 0))) ! 1)
       = {}"
proof -
  let ?evs = "fst (snd (onIndexUpdate (Some engine) (bootstrap crowd) 0))"
  have d: "distinct (map user_id (user (db (bootstrap crowd))))"
    using crowd_distinct by (simp add: bootstrap_def)
  have run: "onIndexUpdate (Some engine) (bootstrap crowd) 0
      = (fst (onIndexUpdate (Some engine) (bootstrap crowd) 0), ?evs,
         snd (snd (onIndexUpdate (Some engine) (bootstrap crowd) 0)))"
    by simp
  from batches_share_no_id[OF d run]
  have "0 < (1::nat) \<and> 1 < length (upsert_batches ?evs) \<longrightarrow>
      doc_id ` set (upsert_batches ?evs ! 0) \<inter> doc_id ` set (upsert_batches ?evs ! 1) = {}"
    by blast
  with d crowd_batches show ?thesis
    by simp
qed

text \<open>
  C10. Two stores with the same user rows, whose change queues list the same set of
  ids for the index kind \<^verbatim>\<open>creators\<close>, give the same run of \<open>onIndexUpdate\<close>: the
  same result, the same events (rows read, documents submitted) and the same task
  uids. How often an id is queued does not matter.
\<close>

theorem queue_multiplicity_is_irrelevant:
  assumes "user d = user d'"
    and "set (queue_findMany d INDEX_ID) = set (queue_findMany d' INDEX_ID)"
  shows "onIndexUpdate client \<lparr>db = d, lastUpdatedAt = lu, indexName = name\<rparr> uid
       = onIndexUpdate client \<lparr>db = d', lastUpdatedAt = lu, indexName = name\<rparr> uid"
  using loop_queue_set[OF assms]
  by (simp add: onIndexUpdate_def split: option.splits)

theorem queue_multiplicity_witness:
  "user store = user store_once
   \<and> searchIndexUpdateQueue store \<noteq> searchIndexUpdateQueue store_once
   \<and> queue_findMany store INDEX_ID = [1, 1] \<and> queue_findMany store_once INDEX_ID = [1]
   \<and> onIndexUpdate (Some engine) (incremental store 20) 0
       = onIndexUpdate (Some engine) (incremental store_once 20) 0"
proof -
  have u: "user store = user store_once"
    by (simp add: store_def store_once_def)
  have q: "queue_findMany store INDEX_ID = [1, 1]" "queue_findMany store_once INDEX_ID = [1]"
    by (simp_all add: store_def store_once_def queue_findMany_def INDEX_ID_def)
  then have s: "set (queue_findMany store INDEX_ID) = set (queue_findMany store_once INDEX_ID)"
    by simp
  from queue_multiplicity_is_irrelevant[OF u s, of "Some engine" "Some 20" INDEX_ID 0] u q
  show ?thesis
    by (simp add: incremental_def) (simp add: store_def store_once_def)
qed

end
